theory Spec2Isabelle
  imports Main "HOL-Library.Word"
begin

unbundle bit_operations_syntax

section \<open>Data model\<close>

text \<open>
  A Node \<open>Buffer\<close> is a sequence of bytes. Arbitrary-precision integers (\<open>BN\<close>,
  \<open>BigNumber\<close>) are \<open>int\<close>; their decimal \<open>toString()\<close> is canonical, so the
  string comparisons of the source are comparisons of the integers. JavaScript numbers
  that count bits or iterations are \<open>nat\<close>; identifiers and nonces are \<open>int\<close>.
  Strings are byte strings; the prefixes and the hexadecimal digits that the code looks
  at are ASCII.
\<close>

type_synonym byte = "8 word"
type_synonym Buffer = "byte list"

text \<open>Every \<open>throw\<close> of the source (and of the library calls it relies on) is a value.\<close>

datatype error =
    BadAddressPrefix        \<comment> \<open>ETH address must start with '0x' and Sync address start with 'sync:'\<close>
  | BadAddressLength        \<comment> \<open>Address must be 20 bytes long\<close>
  | NegativeTokenId         \<comment> \<open>Negative tokenId\<close>
  | TokenIdTooBig           \<comment> \<open>TokenId is too big\<close>
  | NegativeNonce           \<comment> \<open>Negative nonce\<close>
  | ValueOutOfRange         \<comment> \<open>\<open>writeUInt32BE\<close> of a value above \<open>0xffffffff\<close>\<close>
  | ByteArrayTooLong        \<comment> \<open>\<open>toArrayLike\<close>: byte array longer than desired length\<close>
  | IncorrectInputLength    \<comment> \<open>Float unpacking, incorrect input length\<close>
  | WrongNumberOfBits       \<comment> \<open>wrong number of bits to pack\<close>
  | IntegerTooBig           \<comment> \<open>Integer is too big\<close>
  | AmountNotPackable       \<comment> \<open>Transaction Amount is not packable\<close>
  | FeeNotPackable          \<comment> \<open>Fee Amount is not packable\<close>
  | AssertionFailed         \<comment> \<open>\<open>divn\<close>: Assertion failed (divisor above \<open>0x3ffffff\<close>)\<close>

text \<open>
  A call either does not return (\<open>None\<close>), throws (\<open>Some (Inl e)\<close>) or returns
  (\<open>Some (Inr x)\<close>). \<open>then_do\<close> sequences two calls as the statements of a function
  body are sequenced.
\<close>

type_synonym 'a outcome = "(error + 'a) option"

definition then_do :: "'a outcome \<Rightarrow> ('a \<Rightarrow> 'b outcome) \<Rightarrow> 'b outcome" where
  "then_do m f = (case m of None \<Rightarrow> None | Some (Inl e) \<Rightarrow> Some (Inl e) | Some (Inr x) \<Rightarrow> f x)"

definition then_res :: "error + 'a \<Rightarrow> ('a \<Rightarrow> error + 'b) \<Rightarrow> error + 'b" where
  "then_res m f = (case m of Inl e \<Rightarrow> Inl e | Inr x \<Rightarrow> f x)"

section \<open>Library primitives\<close>

subsection \<open>JavaScript 32-bit integer operators\<close>

text \<open>
  \<open>a << n\<close> and \<open>a & b\<close> convert their operands to 32-bit integers, the shift count is
  taken modulo 32, and the result is read as a signed 32-bit integer.
\<close>

definition js_shl :: "int \<Rightarrow> nat \<Rightarrow> int" where
  "js_shl a n = sint (push_bit (n mod 32) (word_of_int a :: 32 word))"

definition js_and :: "int \<Rightarrow> int \<Rightarrow> int" where
  "js_and a b = sint ((word_of_int a :: 32 word) AND word_of_int b)"

subsection \<open>bn.js\<close>

text \<open>\<open>x.testn(i)\<close> tests bit \<open>i\<close> of the magnitude of \<open>x\<close>.\<close>

definition testn :: "int \<Rightarrow> nat \<Rightarrow> bool" where
  "testn x i = bit \<bar>x\<bar> i"

text \<open>\<open>new BN(bytes, 16, "be")\<close> on a byte array reads it as a big-endian number.\<close>

definition BN_of_bytes_be :: "Buffer \<Rightarrow> int" where
  "BN_of_bytes_be bytes = foldl (\<lambda>acc b. acc * 256 + uint b) 0 bytes"

text \<open>
  \<open>x.toArrayLike(Buffer, "be", len)\<close> asserts that the magnitude of \<open>x\<close> fits \<open>len\<close>
  bytes and writes it big-endian, padded with zero bytes on the left.
\<close>

definition toArrayLike_be :: "int \<Rightarrow> nat \<Rightarrow> error + Buffer" where
  "toArrayLike_be x len =
     (if \<bar>x\<bar> \<ge> 2 ^ (8 * len) then Inl ByteArrayTooLong
      else Inr (map (\<lambda>i. word_of_int (drop_bit (8 * (len - 1 - i)) \<bar>x\<bar>)) [0..<len]))"

subsection \<open>Node Buffer\<close>

text \<open>
  \<open>Buffer.from(s, "hex")\<close> decodes pairs of hexadecimal digits of either case and
  stops at the first pair that is not two hexadecimal digits; a trailing single
  character is dropped.
\<close>

definition hex_digit_val :: "char \<Rightarrow> nat option" where
  "hex_digit_val c =
     (let n = (of_char c :: nat)
      in if 48 \<le> n \<and> n \<le> 57 then Some (n - 48)
         else if 97 \<le> n \<and> n \<le> 102 then Some (n - 87)
         else if 65 \<le> n \<and> n \<le> 70 then Some (n - 55)
         else None)"

fun Buffer_from_hex :: "string \<Rightarrow> Buffer" where
  "Buffer_from_hex (a # b # rest) =
     (case (hex_digit_val a, hex_digit_val b) of
        (Some x, Some y) \<Rightarrow> of_nat (16 * x + y) # Buffer_from_hex rest
      | _ \<Rightarrow> [])"
| "Buffer_from_hex _ = []"

text \<open>
  \<open>buf.writeUInt16BE(v, 0)\<close> and \<open>buf.writeUInt32BE(v, 0)\<close> on a fresh buffer of
  that size. The 32-bit write throws on a value outside \<open>[0, 2^32)\<close>; the 16-bit write
  is only reached with a token id that \<open>serializeTokenId\<close> has checked to lie in
  \<open>[0, 4096)\<close>.
\<close>

definition writeUInt16BE :: "int \<Rightarrow> Buffer" where
  "writeUInt16BE v = [word_of_int (drop_bit 8 v), word_of_int v]"

definition writeUInt32BE :: "int \<Rightarrow> error + Buffer" where
  "writeUInt32BE v =
     (if v < 0 \<or> v > 0xffffffff then Inl ValueOutOfRange
      else Inr [word_of_int (drop_bit 24 v), word_of_int (drop_bit 16 v),
                word_of_int (drop_bit 8 v), word_of_int v])"

text \<open>\<open>String.prototype.startsWith\<close>; \<open>s.substr(n)\<close> is \<open>drop n s\<close>.\<close>

definition startsWith :: "string \<Rightarrow> string \<Rightarrow> bool" where
  "startsWith s p = (take (length p) s = p)"

text \<open>\<open>String.prototype.toLowerCase\<close> on ASCII text.\<close>

definition toLowerCase :: "string \<Rightarrow> string" where
  "toLowerCase s =
     map (\<lambda>c. let n = (of_char c :: nat) in if 65 \<le> n \<and> n \<le> 90 then char_of (n + 32) else c) s"

section \<open>utils.ts: the compact float codec\<close>

definition AMOUNT_EXPONENT_BIT_WIDTH :: nat where "AMOUNT_EXPONENT_BIT_WIDTH = 5"
definition AMOUNT_MANTISSA_BIT_WIDTH :: nat where "AMOUNT_MANTISSA_BIT_WIDTH = 35"
definition FEE_EXPONENT_BIT_WIDTH :: nat where "FEE_EXPONENT_BIT_WIDTH = 5"
definition FEE_MANTISSA_BIT_WIDTH :: nat where "FEE_MANTISSA_BIT_WIDTH = 11"

text \<open>
  \<open>floatToInteger\<close>: both loops carry the accumulated value and the current power of
  two, as the source does.
\<close>

definition floatToInteger :: "Buffer \<Rightarrow> nat \<Rightarrow> nat \<Rightarrow> nat \<Rightarrow> error + int" where
  "floatToInteger floatBytes expBits mantissaBits expBaseNumber =
     (if length floatBytes * 8 \<noteq> mantissaBits + expBits then Inl IncorrectInputLength
      else
        let floatHolder = BN_of_bytes_be floatBytes;
            expBase = int expBaseNumber;
            (exponent, expPow2) =
               fold (\<lambda>i (exponent, expPow2).
                       (if testn floatHolder i then exponent + expPow2 else exponent, expPow2 * 2))
                    [0..<expBits] (0, 1);
            exponent = expBase ^ nat exponent;
            (mantissa, mantissaPow2) =
               fold (\<lambda>i (mantissa, mantissaPow2).
                       (if testn floatHolder i then mantissa + mantissaPow2 else mantissa,
                        mantissaPow2 * 2))
                    [expBits..<expBits + mantissaBits] (0, 1)
        in Inr (exponent * mantissa))"

definition pack_byte :: "bool list \<Rightarrow> nat \<Rightarrow> byte" where
  "pack_byte bits byte =
     (if bits ! (byte * 8) then 0x80 else 0) OR
     (if bits ! (byte * 8 + 1) then 0x40 else 0) OR
     (if bits ! (byte * 8 + 2) then 0x20 else 0) OR
     (if bits ! (byte * 8 + 3) then 0x10 else 0) OR
     (if bits ! (byte * 8 + 4) then 0x08 else 0) OR
     (if bits ! (byte * 8 + 5) then 0x04 else 0) OR
     (if bits ! (byte * 8 + 6) then 0x02 else 0) OR
     (if bits ! (byte * 8 + 7) then 0x01 else 0)"

definition bitsIntoBytesInBEOrder :: "bool list \<Rightarrow> error + Buffer" where
  "bitsIntoBytesInBEOrder bits =
     (if length bits mod 8 \<noteq> 0 then Inl WrongNumberOfBits
      else let nBytes = length bits div 8 in Inr (map (pack_byte bits) [0..<nBytes]))"

text \<open>
  The normalisation loop of \<open>integerToFloat\<close>:
  \<^verbatim>\<open>while (mantissa.gt(max_mantissa)) { mantissa = mantissa.divn(exp_base); exponent += 1; }\<close>
  \<open>divn\<close> asserts that its divisor is at most \<open>0x3ffffff\<close>, so with a larger
  \<open>exp_base\<close> the first iteration throws. With \<open>exp_base = 1\<close> the loop does not end,
  so it is a partial function.
\<close>

partial_function (option) normalise_loop ::
    "int \<Rightarrow> nat \<Rightarrow> int \<Rightarrow> nat \<Rightarrow> (error + nat \<times> int) option" where
  "normalise_loop max_mantissa exp_base mantissa exponent =
     (if mantissa > max_mantissa
      then (if int exp_base > 0x3ffffff then Some (Inl AssertionFailed)
            else normalise_loop max_mantissa exp_base (mantissa div int exp_base) (exponent + 1))
      else Some (Inr (exponent, mantissa)))"

declare normalise_loop.simps [code]

definition integerToFloat :: "int \<Rightarrow> nat \<Rightarrow> nat \<Rightarrow> nat \<Rightarrow> Buffer outcome" where
  "integerToFloat integer exp_bits mantissa_bits exp_base =
     (let max_exponent = (10 :: int) ^ nat \<bar>js_shl 1 exp_bits - 1\<bar>;
          max_mantissa = (2 :: int) ^ mantissa_bits - 1
      in if integer > max_mantissa * max_exponent then Some (Inl IntegerTooBig)
         else
           then_do (normalise_loop max_mantissa exp_base integer 0) (\<lambda>(exponent, mantissa).
             let encoding =
                   map (\<lambda>i. js_and (int exponent) (js_shl 1 i) \<noteq> 0) [0..<exp_bits] @
                   map (\<lambda>i. testn mantissa i) [0..<mantissa_bits]
             in Some (then_res (bitsIntoBytesInBEOrder (rev encoding)) (\<lambda>bytes. Inr (rev bytes)))))"

text \<open>
  \<open>reverseBits\<close>: \<open>buffer.reverse()\<close> reverses the argument in place, \<open>Buffer.from\<close>
  copies the result, and the array returned by \<open>reversed.map(...)\<close> is dropped. The
  model returns the contents of the argument after the call and the returned buffer.
\<close>

definition reverse_bits_in_byte :: "byte \<Rightarrow> byte" where
  "reverse_bits_in_byte b0 =
     (let b1 = drop_bit 4 (b0 AND 0xf0) OR push_bit 4 (b0 AND 0x0f);
          b2 = drop_bit 2 (b1 AND 0xcc) OR push_bit 2 (b1 AND 0x33);
          b3 = drop_bit 1 (b2 AND 0xaa) OR push_bit 1 (b2 AND 0x55)
      in b3)"

definition reverseBits :: "Buffer \<Rightarrow> Buffer \<times> Buffer" where
  "reverseBits buffer =
     (let buffer' = rev buffer;
          reversed = buffer';
          mapped = map reverse_bits_in_byte reversed
      in (buffer', reversed))"

definition packAmount :: "int \<Rightarrow> Buffer outcome" where
  "packAmount amount =
     then_do (integerToFloat amount AMOUNT_EXPONENT_BIT_WIDTH AMOUNT_MANTISSA_BIT_WIDTH 10)
       (\<lambda>buffer. Some (Inr (snd (reverseBits buffer))))"

definition packFee :: "int \<Rightarrow> Buffer outcome" where
  "packFee amount =
     then_do (integerToFloat amount FEE_EXPONENT_BIT_WIDTH FEE_MANTISSA_BIT_WIDTH 10)
       (\<lambda>buffer. Some (Inr (snd (reverseBits buffer))))"

definition closestPackableTransactionAmount :: "int \<Rightarrow> int outcome" where
  "closestPackableTransactionAmount amount =
     then_do (packAmount amount)
       (\<lambda>packedAmount. Some (floatToInteger packedAmount
                                AMOUNT_EXPONENT_BIT_WIDTH AMOUNT_MANTISSA_BIT_WIDTH 10))"

definition closestPackableTransactionFee :: "int \<Rightarrow> int outcome" where
  "closestPackableTransactionFee fee =
     then_do (packFee fee)
       (\<lambda>packedFee. Some (floatToInteger packedFee
                             FEE_EXPONENT_BIT_WIDTH FEE_MANTISSA_BIT_WIDTH 10))"

definition packAmountChecked :: "int \<Rightarrow> Buffer outcome" where
  "packAmountChecked amount =
     then_do (closestPackableTransactionAmount amount)
       (\<lambda>closest. if closest \<noteq> amount then Some (Inl AmountNotPackable) else packAmount amount)"

definition packFeeChecked :: "int \<Rightarrow> Buffer outcome" where
  "packFeeChecked amount =
     then_do (closestPackableTransactionFee amount)
       (\<lambda>closest. if closest \<noteq> amount then Some (Inl FeeNotPackable) else packFee amount)"

section \<open>signer.ts: field serialisers and messages\<close>

definition MAX_NUMBER_OF_TOKENS :: int where "MAX_NUMBER_OF_TOKENS = 4096"

definition serializeAddress :: "string \<Rightarrow> error + Buffer" where
  "serializeAddress address =
     (let prefixlessAddress =
            (if startsWith address ''0x'' then Some (drop 2 address)
             else if startsWith address ''sync:'' then Some (drop 5 address)
             else None)
      in case prefixlessAddress of
           None \<Rightarrow> Inl BadAddressPrefix
         | Some prefixless \<Rightarrow>
             let addressBytes = Buffer_from_hex prefixless
             in if length addressBytes \<noteq> 20 then Inl BadAddressLength else Inr addressBytes)"

definition serializeTokenId :: "int \<Rightarrow> error + Buffer" where
  "serializeTokenId tokenId =
     (if tokenId < 0 then Inl NegativeTokenId
      else if tokenId \<ge> MAX_NUMBER_OF_TOKENS then Inl TokenIdTooBig
      else Inr (writeUInt16BE tokenId))"

definition serializeAmountPacked :: "int \<Rightarrow> Buffer outcome" where
  "serializeAmountPacked amount = packAmountChecked amount"

definition serializeAmountFull :: "int \<Rightarrow> error + Buffer" where
  "serializeAmountFull amount = toArrayLike_be amount 16"

definition serializeFeePacked :: "int \<Rightarrow> Buffer outcome" where
  "serializeFeePacked fee = packFeeChecked fee"

definition serializeNonce :: "int \<Rightarrow> error + Buffer" where
  "serializeNonce nonce =
     (if nonce < 0 then Inl NegativeNonce else writeUInt32BE nonce)"

text \<open>
  The arguments of \<open>signSyncTransfer\<close> and \<open>signSyncWithdraw\<close>, and the signed
  transaction they return. The signing primitive \<open>signTransactionBytes\<close> lives in
  \<open>crypto.ts\<close>; it is a parameter here.
\<close>

record TransferArgs =
  t_from :: string
  t_to :: string
  t_tokenId :: int
  t_amount :: int
  t_fee :: int
  t_nonce :: int

record WithdrawArgs =
  w_from :: string
  w_ethAddress :: string
  w_tokenId :: int
  w_amount :: int
  w_fee :: int
  w_nonce :: int

record 'sig SignedTx =
  tx_type :: string
  tx_from :: string
  tx_to :: string
  tx_token :: int
  tx_amount :: int
  tx_fee :: int
  tx_nonce :: int
  tx_signature :: 'sig

definition signSyncTransfer ::
    "('key \<Rightarrow> Buffer \<Rightarrow> 'sig) \<Rightarrow> 'key \<Rightarrow> TransferArgs \<Rightarrow> 'sig SignedTx outcome" where
  "signSyncTransfer signTransactionBytes privateKey transfer =
     (let type = [5 :: byte] in
      then_do (Some (serializeAddress (t_from transfer))) (\<lambda>from.
      then_do (Some (serializeAddress (t_to transfer))) (\<lambda>to.
      then_do (Some (serializeTokenId (t_tokenId transfer))) (\<lambda>token.
      then_do (serializeAmountPacked (t_amount transfer)) (\<lambda>amount.
      then_do (serializeFeePacked (t_fee transfer)) (\<lambda>fee.
      then_do (Some (serializeNonce (t_nonce transfer))) (\<lambda>nonce.
        let msgBytes = concat [type, from, to, token, amount, fee, nonce];
            signature = signTransactionBytes privateKey msgBytes
        in Some (Inr \<lparr> tx_type = ''Transfer'', tx_from = t_from transfer, tx_to = t_to transfer,
                       tx_token = t_tokenId transfer, tx_amount = t_amount transfer,
                       tx_fee = t_fee transfer, tx_nonce = t_nonce transfer,
                       tx_signature = signature \<rparr>))))))))"

definition signSyncWithdraw ::
    "('key \<Rightarrow> Buffer \<Rightarrow> 'sig) \<Rightarrow> 'key \<Rightarrow> WithdrawArgs \<Rightarrow> 'sig SignedTx outcome" where
  "signSyncWithdraw signTransactionBytes privateKey withdraw =
     (let typeBytes = [3 :: byte] in
      then_do (Some (serializeAddress (w_from withdraw))) (\<lambda>accountBytes.
      then_do (Some (serializeAddress (w_ethAddress withdraw))) (\<lambda>ethAddressBytes.
      then_do (Some (serializeTokenId (w_tokenId withdraw))) (\<lambda>tokenIdBytes.
      then_do (Some (serializeAmountFull (w_amount withdraw))) (\<lambda>amountBytes.
      then_do (serializeFeePacked (w_fee withdraw)) (\<lambda>feeBytes.
      then_do (Some (serializeNonce (w_nonce withdraw))) (\<lambda>nonceBytes.
        let msgBytes = concat [typeBytes, accountBytes, ethAddressBytes, tokenIdBytes,
                               amountBytes, feeBytes, nonceBytes];
            signature = signTransactionBytes privateKey msgBytes
        in Some (Inr \<lparr> tx_type = ''Withdraw'', tx_from = w_from withdraw,
                       tx_to = w_ethAddress withdraw, tx_token = w_tokenId withdraw,
                       tx_amount = w_amount withdraw, tx_fee = w_fee withdraw,
                       tx_nonce = w_nonce withdraw, tx_signature = signature \<rparr>))))))))"

section \<open>Notions used to state the properties\<close>

text \<open>The value of a bit sequence read least-significant bit first.\<close>

fun le_val :: "bool list \<Rightarrow> int" where
  "le_val [] = 0"
| "le_val (b # bs) = of_bool b + 2 * le_val bs"

text \<open>The hexadecimal digits, of either case.\<close>

definition is_hex_digit :: "char \<Rightarrow> bool" where
  "is_hex_digit c = (c \<in> set ''0123456789abcdefABCDEF'')"

text \<open>A transfer and a withdrawal used as concrete inputs.\<close>

definition example_transfer :: TransferArgs where
  "example_transfer =
     \<lparr> t_from = ''sync:00112233445566778899aabbccddeeff00112233'',
       t_to = ''sync:ffeeddccbbaa99887766554433221100ffeeddcc'',
       t_tokenId = 258, t_amount = 1000000003, t_fee = 1000000000, t_nonce = 66051 \<rparr>"

definition example_withdraw :: WithdrawArgs where
  "example_withdraw =
     \<lparr> w_from = ''sync:00112233445566778899aabbccddeeff00112233'',
       w_ethAddress = ''0xffeeddccbbaa99887766554433221100ffeeddcc'',
       w_tokenId = 258, w_amount = 1000000003, w_fee = 1000000000, w_nonce = 66051 \<rparr>"

section \<open>The 32-bit operators on small arguments\<close>

lemma js_shl_one: "n \<le> 30 \<Longrightarrow> js_shl 1 n = 2 ^ n"
proof -
  assume n: "n \<le> 30"
  have lt: "(2::int) ^ n < 2 ^ 31"
    using n by (intro power_strict_increasing) simp_all
  have ge: "- (2 ^ 31) \<le> (2::int) ^ n"
    by (rule order_trans [of _ 0]) simp_all
  have stb: "signed_take_bit 31 ((2::int) ^ n) = 2 ^ n"
    using lt ge by (simp only: signed_take_bit_int_eq_self_iff)
  have "js_shl 1 n = sint (push_bit n (1 :: 32 word))"
    using n by (simp add: js_shl_def)
  also have "\<dots> = signed_take_bit 31 (push_bit n (sint (1 :: 32 word)))"
    by (simp only: signed_push_bit_eq) simp
  also have "\<dots> = signed_take_bit 31 ((2::int) ^ n)"
    by (simp add: push_bit_of_1)
  finally show ?thesis using stb by simp
qed

lemma max_exponent_index:
  "eb \<le> 30 \<Longrightarrow> nat \<bar>js_shl 1 eb - 1\<bar> = 2 ^ eb - 1"
  by (simp add: js_shl_one nat_diff_distrib nat_power_eq)

lemma sint32_eq_0: "(sint (w :: 32 word) = 0) = (w = 0)"
  by (rule signed_eq_0_iff)

lemma js_and_bit: "i < 32 \<Longrightarrow> (js_and e (js_shl 1 i) \<noteq> 0) = bit e i"
proof -
  assume i: "i < 32"
  have "js_and e (js_shl 1 i) = sint ((word_of_int e :: 32 word) AND push_bit i 1)"
    using i by (simp add: js_and_def js_shl_def)
  moreover have "((word_of_int e :: 32 word) AND push_bit i 1 \<noteq> 0) = bit (word_of_int e :: 32 word) i"
    by (simp only: bit_iff_and_push_bit_not_eq_0)
  ultimately show ?thesis
    using i by (simp only: sint32_eq_0 bit_word_of_int_iff) simp
qed

section \<open>Bits, bytes and big-endian numbers\<close>

lemma le_val_append: "le_val (xs @ ys) = le_val xs + 2 ^ length xs * le_val ys"
  by (induction xs) (simp_all add: algebra_simps)

lemma le_val_bits: "le_val (map (bit (x::int)) [0..<n]) = take_bit n x"
  by (induction n) (simp_all add: le_val_append take_bit_Suc_from_most)

lemma BN_snoc: "BN_of_bytes_be (xs @ [b]) = BN_of_bytes_be xs * 256 + uint b"
  by (simp add: BN_of_bytes_be_def)

lemma BN_of_bytes_be_nonneg: "0 \<le> BN_of_bytes_be bytes"
  by (induction bytes rule: rev_induct) (simp_all add: BN_of_bytes_be_def)

lemma take8: "8 \<le> length ys \<Longrightarrow> take 8 ys = [ys!0, ys!1, ys!2, ys!3, ys!4, ys!5, ys!6, ys!7]"
  by (rule nth_equalityI) (auto simp: less_Suc_eq eval_nat_numeral)

lemma uint_pack_byte:
  "uint (pack_byte bits k) =
     le_val [bits ! (k*8+7), bits ! (k*8+6), bits ! (k*8+5), bits ! (k*8+4),
             bits ! (k*8+3), bits ! (k*8+2), bits ! (k*8+1), bits ! (k*8)]"
  unfolding pack_byte_def
  by (cases "bits ! (k*8+7)"; cases "bits ! (k*8+6)"; cases "bits ! (k*8+5)"; cases "bits ! (k*8+4)";
      cases "bits ! (k*8+3)"; cases "bits ! (k*8+2)"; cases "bits ! (k*8+1)"; cases "bits ! (k*8)";
      simp)

lemma BN_pack_bytes:
  "n * 8 \<le> length bits \<Longrightarrow>
     BN_of_bytes_be (map (pack_byte bits) [0..<n]) = le_val (rev (take (n * 8) bits))"
proof (induction n)
  case 0
  then show ?case by (simp add: BN_of_bytes_be_def)
next
  case (Suc n)
  then have len: "8 \<le> length (drop (n * 8) bits)" by simp
  have "Suc n * 8 = n * 8 + 8" by simp
  then have "take (Suc n * 8) bits = take (n * 8) bits @ take 8 (drop (n * 8) bits)"
    by (simp only: take_add)
  then have tk: "rev (take (Suc n * 8) bits) = rev (take 8 (drop (n * 8) bits)) @ rev (take (n * 8) bits)"
    by simp
  have ln: "length (rev (take 8 (drop (n * 8) bits))) = 8"
    using len by simp
  have byte: "le_val (rev (take 8 (drop (n * 8) bits))) = uint (pack_byte bits n)"
    using Suc.prems by (simp add: take8 [OF len] uint_pack_byte add.commute)
  have IH: "BN_of_bytes_be (map (pack_byte bits) [0..<n]) = le_val (rev (take (n * 8) bits))"
    using Suc by simp
  have "BN_of_bytes_be (map (pack_byte bits) [0..<Suc n])
          = BN_of_bytes_be (map (pack_byte bits) [0..<n]) * 256 + uint (pack_byte bits n)"
    by (simp add: BN_snoc)
  also have "\<dots> = le_val (rev (take (Suc n * 8) bits))"
    by (simp only: tk le_val_append ln byte IH) simp
  finally show ?case .
qed

lemma bitsIntoBytes_length:
  "bitsIntoBytesInBEOrder bits = Inr bytes \<Longrightarrow> length bytes * 8 = length bits"
  by (auto simp: bitsIntoBytesInBEOrder_def Let_def split: if_splits)

lemma bitsIntoBytes_value:
  assumes "length enc mod 8 = 0"
  shows "\<exists>bytes. bitsIntoBytesInBEOrder (rev enc) = Inr bytes \<and> length bytes * 8 = length enc
            \<and> BN_of_bytes_be bytes = le_val enc"
proof -
  let ?n = "length enc div 8"
  have n: "?n * 8 = length enc" using assms by auto
  have "BN_of_bytes_be (map (pack_byte (rev enc)) [0..<?n]) = le_val (rev (take (?n * 8) (rev enc)))"
    by (rule BN_pack_bytes) (simp add: n)
  then have "BN_of_bytes_be (map (pack_byte (rev enc)) [0..<?n]) = le_val enc"
    by (simp add: n)
  then show ?thesis
    using assms n by (simp add: bitsIntoBytesInBEOrder_def Let_def)
qed

lemma take_bit_split8: "take_bit (n + 8) (y::int) = take_bit n (drop_bit 8 y) * 256 + take_bit 8 y"
proof -
  have "y mod (256 * 2 ^ n) = 256 * (y div 256 mod 2 ^ n) + y mod 256"
    by (rule zmod_zmult2_eq) simp
  then show ?thesis
    by (simp add: take_bit_eq_mod drop_bit_eq_div power_add mult.commute)
qed

lemma be_bytes_value:
  "n \<le> len \<Longrightarrow>
   BN_of_bytes_be (map (\<lambda>i. word_of_int (drop_bit (8 * (len - 1 - i)) x)) [0..<n])
     = take_bit (8 * n) (drop_bit (8 * (len - n)) x)"
proof (induction n)
  case 0
  then show ?case by (simp add: BN_of_bytes_be_def)
next
  case (Suc n)
  let ?y = "drop_bit (8 * (len - Suc n)) x"
  have d: "drop_bit (8 * (len - n)) x = drop_bit 8 ?y"
  proof -
    have "8 * (len - n) = 8 + 8 * (len - Suc n)" using Suc.prems by simp
    then show ?thesis by (simp only: drop_bit_drop_bit)
  qed
  have "BN_of_bytes_be (map (\<lambda>i. word_of_int (drop_bit (8 * (len - 1 - i)) x)) [0..<Suc n])
          = take_bit (8 * n) (drop_bit 8 ?y) * 256 + take_bit 8 ?y"
    using Suc by (simp add: BN_snoc d uint_word_of_int take_bit_eq_mod [of 8])
  also have "\<dots> = take_bit (8 * n + 8) ?y"
    by (simp only: take_bit_split8)
  finally show ?case by (simp add: add.commute)
qed

section \<open>The decoder\<close>

lemma fold_decode:
  "fold (\<lambda>i (acc, p). (if testn N i then acc + p else acc, p * 2)) [a..<a + n] (0, 1)
     = (take_bit n (drop_bit a \<bar>N\<bar>), 2 ^ n)"
  by (induction n) (simp_all add: take_bit_Suc_from_most bit_drop_bit_eq testn_def add.commute)

lemma floatToInteger_value:
  assumes "length bytes * 8 = mb + eb"
  shows "floatToInteger bytes eb mb base =
           Inr (int base ^ nat (take_bit eb (BN_of_bytes_be bytes))
                * take_bit mb (drop_bit eb (BN_of_bytes_be bytes)))"
proof -
  have "\<bar>BN_of_bytes_be bytes\<bar> = BN_of_bytes_be bytes"
    using BN_of_bytes_be_nonneg by simp
  then show ?thesis
    using assms fold_decode [of "BN_of_bytes_be bytes" 0 eb]
      fold_decode [of "BN_of_bytes_be bytes" eb mb]
    by (simp add: floatToInteger_def Let_def)
qed

section \<open>The encoder\<close>

text \<open>
  With a base of at least 2 that \<open>divn\<close> accepts, the normalisation loop ends, at the
  first exponent whose quotient fits the mantissa.
\<close>

lemma normalise_loop_spec:
  assumes b: "2 \<le> b" and small: "b \<le> 0x3ffffff" and mx: "0 \<le> mx"
  shows "\<exists>e. normalise_loop mx b x k = Some (Inr (k + e, x div int b ^ e))
             \<and> x div int b ^ e \<le> mx \<and> (\<forall>j<e. mx < x div int b ^ j)"
proof (induction "nat x" arbitrary: x k rule: less_induct)
  case less
  show ?case
  proof (cases "mx < x")
    case False
    then have "normalise_loop mx b x k = Some (Inr (k, x))"
      by (subst normalise_loop.simps) simp
    with False show ?thesis
      by (intro exI [of _ 0]) simp
  next
    case True
    with mx have pos: "0 < x" by linarith
    have "x div int b < x"
      using pos b by (intro int_div_less_self) simp_all
    moreover have "0 \<le> x div int b"
      using pos b by (simp add: pos_imp_zdiv_nonneg_iff)
    ultimately have "nat (x div int b) < nat x"
      by linarith
    from less [OF this, of "k + 1"] obtain e where
      e: "normalise_loop mx b (x div int b) (k + 1) = Some (Inr (k + 1 + e, x div int b div int b ^ e))"
      and le: "x div int b div int b ^ e \<le> mx"
      and gt: "\<forall>j<e. mx < x div int b div int b ^ j"
      by blast
    have dv: "x div int b div int b ^ j = x div int b ^ Suc j" for j
      by (simp add: zdiv_zmult2_eq)
    have "normalise_loop mx b x k = normalise_loop mx b (x div int b) (k + 1)"
      using True small by (subst normalise_loop.simps) simp
    with e have r: "normalise_loop mx b x k = Some (Inr (k + Suc e, x div int b ^ Suc e))"
      by (simp add: dv)
    have "\<forall>j<Suc e. mx < x div int b ^ j"
    proof (intro allI impI)
      fix j assume "j < Suc e"
      then show "mx < x div int b ^ j"
        using True gt dv by (cases j) auto
    qed
    with r le show ?thesis
      unfolding dv by blast
  qed
qed

lemma encoding_value:
  assumes "eb < 32" "0 \<le> m"
  shows "le_val (map (\<lambda>i. js_and (int e) (js_shl 1 i) \<noteq> 0) [0..<eb] @ map (\<lambda>i. testn m i) [0..<mb])
           = take_bit eb (int e) + 2 ^ eb * take_bit mb m"
proof -
  have a: "map (\<lambda>i. js_and (int e) (js_shl 1 i) \<noteq> 0) [0..<eb] = map (bit (int e)) [0..<eb]"
    using assms(1) by (intro map_cong refl) (simp add: js_and_bit)
  have b: "map (\<lambda>i. testn m i) [0..<mb] = map (bit m) [0..<mb]"
    using assms(2) by (simp add: testn_def)
  show ?thesis
    unfolding a b by (simp add: le_val_append le_val_bits)
qed

lemma integerToFloat_length:
  "integerToFloat v eb mb b = Some (Inr buf) \<Longrightarrow> length buf * 8 = eb + mb"
  by (auto simp: integerToFloat_def Let_def then_res_def then_do_def
           split: if_splits option.splits sum.splits prod.splits dest!: bitsIntoBytes_length)

lemma normalise_loop_error:
  "normalise_loop mx b x k = Some (Inl err) \<Longrightarrow> err = AssertionFailed"
proof -
  assume r: "normalise_loop mx b x k = Some (Inl err)"
  have "\<forall>e. (Inl err :: error + nat \<times> int) = Inl e \<longrightarrow> e = AssertionFailed"
    by (rule normalise_loop.raw_induct
          [where P = "\<lambda>mx b x k r. \<forall>e. r = Inl e \<longrightarrow> e = AssertionFailed", OF _ r])
       (auto split: if_splits)
  then show ?thesis by blast
qed

lemma overflow_check_iff:
  assumes eb: "eb \<le> 30"
  shows "integerToFloat v eb mb b = Some (Inl IntegerTooBig) \<longleftrightarrow> (2 ^ mb - 1) * 10 ^ (2 ^ eb - 1) < v"
proof (cases "(2 ^ mb - 1) * 10 ^ (2 ^ eb - 1) < v")
  case True
  then show ?thesis
    by (simp add: integerToFloat_def Let_def max_exponent_index [OF eb])
next
  case False
  have "integerToFloat v eb mb b \<noteq> Some (Inl IntegerTooBig)"
  proof (cases "normalise_loop (2 ^ mb - 1) b v 0")
    case None
    with False show ?thesis
      by (simp add: integerToFloat_def Let_def max_exponent_index [OF eb] then_do_def)
  next
    case (Some r)
    show ?thesis
    proof (cases r)
      case (Inl err)
      with Some have "err = AssertionFailed" by (simp add: normalise_loop_error)
      with Some Inl False show ?thesis
        by (simp add: integerToFloat_def Let_def max_exponent_index [OF eb] then_do_def)
    next
      case (Inr em)
      with Some False show ?thesis
        by (cases em)
           (simp add: integerToFloat_def Let_def max_exponent_index [OF eb] then_do_def
              then_res_def bitsIntoBytesInBEOrder_def)
    qed
  qed
  with False show ?thesis by simp
qed

lemma integerToFloat_total:
  assumes eb: "eb \<le> 30" and al: "(eb + mb) mod 8 = 0"
    and bound: "v \<le> (2 ^ mb - 1) * 10 ^ (2 ^ eb - 1)"
  shows "\<exists>buf. integerToFloat v eb mb 10 = Some (Inr buf)"
proof -
  have "(0::int) \<le> 2 ^ mb - 1" by simp
  from normalise_loop_spec [of 10 "2 ^ mb - 1" v 0, OF _ _ this] obtain e where
    loop: "normalise_loop (2 ^ mb - 1) 10 v 0 = Some (Inr (e, v div 10 ^ e))"
    by auto
  show ?thesis
    using bound al loop
    by (simp add: integerToFloat_def Let_def max_exponent_index [OF eb] then_res_def then_do_def
          bitsIntoBytesInBEOrder_def)
qed

lemma integerToFloat_returns:
  assumes v: "0 \<le> v" and eb: "eb \<le> 30" and al: "(eb + mb) mod 8 = 0"
    and bound: "v \<le> (2 ^ mb - 1) * 10 ^ (2 ^ eb - 1)"
  shows "\<exists>e bytes. integerToFloat v eb mb 10 = Some (Inr (rev bytes))
            \<and> length bytes * 8 = mb + eb
            \<and> BN_of_bytes_be bytes = int e + 2 ^ eb * (v div 10 ^ e)
            \<and> e < 2 ^ eb \<and> v div 10 ^ e \<le> 2 ^ mb - 1 \<and> (\<forall>j<e. 2 ^ mb - 1 < v div 10 ^ j)"
proof -
  let ?mx = "(2::int) ^ mb - 1"
  have mx: "0 \<le> ?mx" by simp
  from normalise_loop_spec [of 10 ?mx v 0] mx obtain e where
    loop: "normalise_loop ?mx 10 v 0 = Some (Inr (e, v div 10 ^ e))"
    and le: "v div 10 ^ e \<le> ?mx" and gt: "\<forall>j<e. ?mx < v div 10 ^ j"
    by auto
  have "v div 10 ^ (2 ^ eb - 1) \<le> ?mx"
  proof -
    have "v div 10 ^ (2 ^ eb - 1) \<le> (?mx * 10 ^ (2 ^ eb - 1)) div 10 ^ (2 ^ eb - 1)"
      using bound by (intro zdiv_mono1) simp_all
    then show ?thesis by simp
  qed
  with gt have "\<not> 2 ^ eb - 1 < e" by force
  moreover have "(1::nat) \<le> 2 ^ eb" by simp
  ultimately have elt: "e < 2 ^ eb" by linarith
  let ?m = "v div 10 ^ e"
  have m0: "0 \<le> ?m" using v by (simp add: pos_imp_zdiv_nonneg_iff)
  let ?enc = "map (\<lambda>i. js_and (int e) (js_shl 1 i) \<noteq> 0) [0..<eb] @ map (\<lambda>i. testn ?m i) [0..<mb]"
  have "length ?enc mod 8 = 0" using al by simp
  from bitsIntoBytes_value [OF this] obtain bytes where
    bytes: "bitsIntoBytesInBEOrder (rev ?enc) = Inr bytes" "length bytes * 8 = length ?enc"
      "BN_of_bytes_be bytes = le_val ?enc"
    by blast
  have "int e < 2 ^ eb"
    using elt of_nat_less_iff [of e "2 ^ eb", where ?'a = int] by simp
  then have "take_bit eb (int e) = int e"
    by (simp add: take_bit_int_eq_self)
  moreover have "take_bit mb ?m = ?m"
    using m0 le by (simp add: take_bit_int_eq_self)
  ultimately have val: "le_val ?enc = int e + 2 ^ eb * ?m"
    using eb m0 by (simp add: encoding_value)
  have "integerToFloat v eb mb 10 = Some (Inr (rev bytes))"
    using bound loop bytes(1)
    by (simp add: integerToFloat_def Let_def max_exponent_index [OF eb] then_res_def then_do_def)
  with bytes val elt le gt show ?thesis
    by (intro exI [of _ e] exI [of _ bytes]) (simp add: add.commute)
qed

section \<open>Packing, then decoding\<close>

lemma reverseBits_eq: "reverseBits b = (rev b, rev b)"
  by (simp add: reverseBits_def Let_def)

lemma pack_then_decode:
  assumes v: "0 \<le> v" and eb: "eb \<le> 30" and al: "(eb + mb) mod 8 = 0"
    and bound: "v \<le> (2 ^ mb - 1) * 10 ^ (2 ^ eb - 1)"
  shows "\<exists>e buf. integerToFloat v eb mb 10 = Some (Inr buf)
            \<and> floatToInteger (snd (reverseBits buf)) eb mb 10 = Inr (v div 10 ^ e * 10 ^ e)
            \<and> v div 10 ^ e \<le> 2 ^ mb - 1 \<and> (\<forall>j<e. 2 ^ mb - 1 < v div 10 ^ j)"
proof -
  from integerToFloat_returns [OF assms] obtain e bytes where
    r: "integerToFloat v eb mb 10 = Some (Inr (rev bytes))"
    and len: "length bytes * 8 = mb + eb"
    and val: "BN_of_bytes_be bytes = int e + 2 ^ eb * (v div 10 ^ e)"
    and elt: "e < 2 ^ eb" and le: "v div 10 ^ e \<le> 2 ^ mb - 1"
    and gt: "\<forall>j<e. 2 ^ mb - 1 < v div 10 ^ j"
    by blast
  let ?m = "v div 10 ^ e"
  have m0: "0 \<le> ?m" using v by (simp add: pos_imp_zdiv_nonneg_iff)
  have e2: "int e < 2 ^ eb"
    using elt of_nat_less_iff [of e "2 ^ eb", where ?'a = int] by simp
  have tb: "take_bit eb (int e + 2 ^ eb * ?m) = int e"
    using e2 by (simp add: take_bit_eq_mod)
  have db: "drop_bit eb (int e + 2 ^ eb * ?m) = ?m"
    using e2 by (simp add: drop_bit_eq_div)
  have tm: "take_bit mb ?m = ?m"
    using m0 le by (simp add: take_bit_int_eq_self)
  have "floatToInteger bytes eb mb 10 = Inr (?m * 10 ^ e)"
    by (simp add: floatToInteger_value [OF len] val tb db tm)
  with r le gt show ?thesis
    by (intro exI [of _ e] exI [of _ "rev bytes"]) (simp add: reverseBits_eq)
qed

lemma closest_amount_char:
  assumes "0 \<le> v" "v \<le> (2 ^ 35 - 1) * 10 ^ 31"
  shows "\<exists>e. closestPackableTransactionAmount v = Some (Inr (v div 10 ^ e * 10 ^ e))
           \<and> v div 10 ^ e \<le> 2 ^ 35 - 1 \<and> (\<forall>j<e. 2 ^ 35 - 1 < v div 10 ^ j)"
proof -
  have "v \<le> (2 ^ 35 - 1) * 10 ^ (2 ^ 5 - 1)" using assms(2) by simp
  from pack_then_decode [of v 5 35, OF assms(1) _ _ this] show ?thesis
    by (auto simp: closestPackableTransactionAmount_def packAmount_def then_do_def
          AMOUNT_EXPONENT_BIT_WIDTH_def AMOUNT_MANTISSA_BIT_WIDTH_def)
qed

lemma closest_fee_char:
  assumes "0 \<le> v" "v \<le> (2 ^ 11 - 1) * 10 ^ 31"
  shows "\<exists>e. closestPackableTransactionFee v = Some (Inr (v div 10 ^ e * 10 ^ e))
           \<and> v div 10 ^ e \<le> 2 ^ 11 - 1 \<and> (\<forall>j<e. 2 ^ 11 - 1 < v div 10 ^ j)"
proof -
  have "v \<le> (2 ^ 11 - 1) * 10 ^ (2 ^ 5 - 1)" using assms(2) by simp
  from pack_then_decode [of v 5 11, OF assms(1) _ _ this] show ?thesis
    by (auto simp: closestPackableTransactionFee_def packFee_def then_do_def
          FEE_EXPONENT_BIT_WIDTH_def FEE_MANTISSA_BIT_WIDTH_def)
qed

lemma int_div_mult_le: "0 < d \<Longrightarrow> (x::int) div d * d \<le> x"
proof -
  assume d: "0 < d"
  have "x div d * d + x mod d = x" by simp
  moreover have "0 \<le> x mod d" using d by simp
  ultimately show ?thesis by linarith
qed

lemma round_to_power_fixed:
  assumes e: "(r::int) = m * 10 ^ e" and m: "m \<le> mx"
    and gt: "\<forall>j<e'. mx < r div 10 ^ j"
  shows "r div 10 ^ e' * 10 ^ e' = r"
proof -
  have "\<not> e < e'"
  proof
    assume "e < e'"
    with gt have "mx < r div 10 ^ e" by blast
    with e m show False by simp
  qed
  then have "e' \<le> e" by simp
  then have "(10::int) ^ e' dvd 10 ^ e" by (rule le_imp_power_dvd)
  then have "(10::int) ^ e' dvd r" unfolding e by (rule dvd_mult)
  then show ?thesis by simp
qed

lemma packAmountChecked_length:
  "packAmountChecked v = Some (Inr b) \<Longrightarrow> length b = 5"
  by (auto simp: packAmountChecked_def packAmount_def then_do_def reverseBits_eq
        AMOUNT_EXPONENT_BIT_WIDTH_def AMOUNT_MANTISSA_BIT_WIDTH_def
      split: option.splits sum.splits if_splits dest!: integerToFloat_length)

lemma packFeeChecked_length:
  "packFeeChecked v = Some (Inr b) \<Longrightarrow> length b = 2"
  by (auto simp: packFeeChecked_def packFee_def then_do_def reverseBits_eq
        FEE_EXPONENT_BIT_WIDTH_def FEE_MANTISSA_BIT_WIDTH_def
      split: option.splits sum.splits if_splits dest!: integerToFloat_length)

lemma packAmountChecked_decodes:
  "packAmountChecked v = Some (Inr b) \<Longrightarrow> floatToInteger b 5 35 10 = Inr v"
  by (auto simp: packAmountChecked_def closestPackableTransactionAmount_def then_do_def
        AMOUNT_EXPONENT_BIT_WIDTH_def AMOUNT_MANTISSA_BIT_WIDTH_def
      split: option.splits sum.splits if_splits)

lemma packFeeChecked_decodes:
  "packFeeChecked v = Some (Inr b) \<Longrightarrow> floatToInteger b 5 11 10 = Inr v"
  by (auto simp: packFeeChecked_def closestPackableTransactionFee_def then_do_def
        FEE_EXPONENT_BIT_WIDTH_def FEE_MANTISSA_BIT_WIDTH_def
      split: option.splits sum.splits if_splits)

section \<open>Concrete runs of the codec\<close>

lemma closest_amount_1000000000: "closestPackableTransactionAmount 1000000000 = Some (Inr 1000000000)"
  by code_simp

lemma closest_amount_1000000003: "closestPackableTransactionAmount 1000000003 = Some (Inr 1000000003)"
  by code_simp

lemma closest_fee_1000000000: "closestPackableTransactionFee 1000000000 = Some (Inr 1000000000)"
  by code_simp

lemma closest_fee_1000000003: "closestPackableTransactionFee 1000000003 = Some (Inr 1000000000)"
  by code_simp

lemma pack_amount_checked_1000000000:
  "packAmountChecked 1000000000 = Some (Inr [0x07, 0x73, 0x59, 0x40, 0x00])"
  by code_simp

lemma pack_amount_checked_1000000003:
  "packAmountChecked 1000000003 = Some (Inr [0x07, 0x73, 0x59, 0x40, 0x60])"
  by code_simp

lemma pack_fee_checked_1000000000: "packFeeChecked 1000000000 = Some (Inr [0x7d, 0x06])"
  by code_simp

lemma pack_fee_checked_1000000003: "packFeeChecked 1000000003 = Some (Inl FeeNotPackable)"
  by code_simp

text \<open>A base above \<open>0x3ffffff\<close> makes \<open>divn\<close> throw as soon as the loop is entered.\<close>

lemma divn_assertion_example:
  "integerToFloat 2048 5 11 67108864 = Some (Inl AssertionFailed)"
proof -
  have "normalise_loop 2047 67108864 2048 0 = Some (Inl AssertionFailed)"
    by (subst normalise_loop.simps) simp
  then show ?thesis
    by (simp add: integerToFloat_def Let_def max_exponent_index then_do_def)
qed

section \<open>Claims about the compact float codec\<close>

text \<open>
  Claim C1 (round trip at both widths). For every non-negative integer \<open>v\<close> within the
  encoding bound \<open>(2^mantissaBits - 1) * 10^31\<close> (35 mantissa bits for amounts, 11 for fees):
  if \<open>closestPackableTransactionAmount v\<close> (respectively
  \<open>closestPackableTransactionFee v\<close>) returns \<open>v\<close> itself, then \<open>packAmountChecked v\<close>
  (respectively \<open>packFeeChecked v\<close>) returns a buffer, and \<open>floatToInteger\<close> with 5
  exponent bits and the matching mantissa width decodes that buffer to \<open>v\<close>.
\<close>

theorem C1_pack_checked_round_trip:
  assumes "0 \<le> v"
  shows "(v \<le> (2 ^ 35 - 1) * 10 ^ 31 \<and> closestPackableTransactionAmount v = Some (Inr v) \<longrightarrow>
            (\<exists>buf. packAmountChecked v = Some (Inr buf) \<and> floatToInteger buf 5 35 10 = Inr v))
       \<and> (v \<le> (2 ^ 11 - 1) * 10 ^ 31 \<and> closestPackableTransactionFee v = Some (Inr v) \<longrightarrow>
            (\<exists>buf. packFeeChecked v = Some (Inr buf) \<and> floatToInteger buf 5 11 10 = Inr v))"
  by (auto simp: packAmountChecked_def closestPackableTransactionAmount_def
        packFeeChecked_def closestPackableTransactionFee_def then_do_def
        AMOUNT_EXPONENT_BIT_WIDTH_def AMOUNT_MANTISSA_BIT_WIDTH_def
        FEE_EXPONENT_BIT_WIDTH_def FEE_MANTISSA_BIT_WIDTH_def
      split: option.splits sum.splits)

theorem C1_pack_checked_round_trip_witness:
  "(\<exists>buf. packAmountChecked 1000000000 = Some (Inr buf)
       \<and> floatToInteger buf 5 35 10 = Inr 1000000000)
   \<and> (\<exists>buf. packFeeChecked 1000000000 = Some (Inr buf)
       \<and> floatToInteger buf 5 11 10 = Inr 1000000000)"
proof -
  have h0: "(0::int) \<le> 1000000000" by simp
  have h1: "(1000000000::int) \<le> (2 ^ 35 - 1) * 10 ^ 31" by simp
  have h2: "(1000000000::int) \<le> (2 ^ 11 - 1) * 10 ^ 31" by simp
  from C1_pack_checked_round_trip [OF h0] h1 h2
    closest_amount_1000000000 closest_fee_1000000000
  show ?thesis by blast
qed

text \<open>
  Claim C2 (nearest representable value). For every non-negative integer \<open>v\<close> within the
  amount bound, \<open>closestPackableTransactionAmount v\<close> returns \<open>(v div 10^e) * 10^e\<close>
  where \<open>e\<close> is the smallest exponent with \<open>v div 10^e \<le> 2^35 - 1\<close>; likewise
  \<open>closestPackableTransactionFee\<close> with the mantissa bound \<open>2^11 - 1\<close>. So
  \<open>floatToInteger\<close> inverts the layout produced by \<open>integerToFloat\<close> followed by
  \<open>reverseBits\<close> and recovers the mantissa and the exponent chosen by repeated division
  by 10.
\<close>

theorem C2_closest_packable_characterisation:
  assumes "0 \<le> v"
  shows "(v \<le> (2 ^ 35 - 1) * 10 ^ 31 \<longrightarrow>
            (\<exists>e. closestPackableTransactionAmount v = Some (Inr (v div 10 ^ e * 10 ^ e))
               \<and> v div 10 ^ e \<le> 2 ^ 35 - 1 \<and> (\<forall>j<e. \<not> v div 10 ^ j \<le> 2 ^ 35 - 1)))
       \<and> (v \<le> (2 ^ 11 - 1) * 10 ^ 31 \<longrightarrow>
            (\<exists>e. closestPackableTransactionFee v = Some (Inr (v div 10 ^ e * 10 ^ e))
               \<and> v div 10 ^ e \<le> 2 ^ 11 - 1 \<and> (\<forall>j<e. \<not> v div 10 ^ j \<le> 2 ^ 11 - 1)))"
  using closest_amount_char [OF assms] closest_fee_char [OF assms]
  by (simp add: not_le)

theorem C2_closest_packable_characterisation_witness:
  "(\<exists>e. closestPackableTransactionAmount 1000000000003
            = Some (Inr (1000000000003 div 10 ^ e * 10 ^ e))
        \<and> 1000000000003 div 10 ^ e \<le> (2::int) ^ 35 - 1)
   \<and> (\<exists>e. closestPackableTransactionFee 1000000000003
            = Some (Inr (1000000000003 div 10 ^ e * 10 ^ e))
        \<and> 1000000000003 div 10 ^ e \<le> (2::int) ^ 11 - 1)"
proof -
  have h0: "(0::int) \<le> 1000000000003" by simp
  have h1: "(1000000000003::int) \<le> (2 ^ 35 - 1) * 10 ^ 31" by simp
  have h2: "(1000000000003::int) \<le> (2 ^ 11 - 1) * 10 ^ 31" by simp
  from C2_closest_packable_characterisation [OF h0] h1 h2
  show ?thesis by blast
qed

text \<open>
  Claim C6 (idempotence). For every non-negative integer \<open>x\<close> within the encoding bound,
  \<open>closestPackableTransactionAmount\<close> returns a value \<open>r\<close> on \<open>x\<close> and returns \<open>r\<close>
  again on \<open>r\<close>; likewise \<open>closestPackableTransactionFee\<close> at the fee width.
\<close>

theorem C6_closest_packable_idempotent:
  assumes "0 \<le> x"
  shows "(x \<le> (2 ^ 35 - 1) * 10 ^ 31 \<longrightarrow>
            (\<exists>r. closestPackableTransactionAmount x = Some (Inr r)
               \<and> closestPackableTransactionAmount r = Some (Inr r)))
       \<and> (x \<le> (2 ^ 11 - 1) * 10 ^ 31 \<longrightarrow>
            (\<exists>r. closestPackableTransactionFee x = Some (Inr r)
               \<and> closestPackableTransactionFee r = Some (Inr r)))"
proof (intro conjI impI)
  assume b: "x \<le> (2 ^ 35 - 1) * 10 ^ 31"
  from closest_amount_char [OF assms b] obtain e where
    c: "closestPackableTransactionAmount x = Some (Inr (x div 10 ^ e * 10 ^ e))"
    and le: "x div 10 ^ e \<le> 2 ^ 35 - 1" by blast
  let ?r = "x div 10 ^ e * 10 ^ e"
  have r0: "0 \<le> ?r" using assms by (simp add: pos_imp_zdiv_nonneg_iff)
  have "?r \<le> x" by (rule int_div_mult_le) simp
  with b have rb: "?r \<le> (2 ^ 35 - 1) * 10 ^ 31" by linarith
  from closest_amount_char [OF r0 rb] obtain e' where
    c': "closestPackableTransactionAmount ?r = Some (Inr (?r div 10 ^ e' * 10 ^ e'))"
    and gt': "\<forall>j<e'. 2 ^ 35 - 1 < ?r div 10 ^ j" by blast
  from round_to_power_fixed [OF refl le gt'] c' c
  show "\<exists>r. closestPackableTransactionAmount x = Some (Inr r)
               \<and> closestPackableTransactionAmount r = Some (Inr r)"
    by simp
next
  assume b: "x \<le> (2 ^ 11 - 1) * 10 ^ 31"
  from closest_fee_char [OF assms b] obtain e where
    c: "closestPackableTransactionFee x = Some (Inr (x div 10 ^ e * 10 ^ e))"
    and le: "x div 10 ^ e \<le> 2 ^ 11 - 1" by blast
  let ?r = "x div 10 ^ e * 10 ^ e"
  have r0: "0 \<le> ?r" using assms by (simp add: pos_imp_zdiv_nonneg_iff)
  have "?r \<le> x" by (rule int_div_mult_le) simp
  with b have rb: "?r \<le> (2 ^ 11 - 1) * 10 ^ 31" by linarith
  from closest_fee_char [OF r0 rb] obtain e' where
    c': "closestPackableTransactionFee ?r = Some (Inr (?r div 10 ^ e' * 10 ^ e'))"
    and gt': "\<forall>j<e'. 2 ^ 11 - 1 < ?r div 10 ^ j" by blast
  from round_to_power_fixed [OF refl le gt'] c' c
  show "\<exists>r. closestPackableTransactionFee x = Some (Inr r)
               \<and> closestPackableTransactionFee r = Some (Inr r)"
    by simp
qed

theorem C6_closest_packable_idempotent_witness:
  "(\<exists>r. closestPackableTransactionAmount 1000000000003 = Some (Inr r)
        \<and> closestPackableTransactionAmount r = Some (Inr r))
   \<and> (\<exists>r. closestPackableTransactionFee 1000000000003 = Some (Inr r)
        \<and> closestPackableTransactionFee r = Some (Inr r))"
proof -
  have h0: "(0::int) \<le> 1000000000003" by simp
  have h1: "(1000000000003::int) \<le> (2 ^ 35 - 1) * 10 ^ 31" by simp
  have h2: "(1000000000003::int) \<le> (2 ^ 11 - 1) * 10 ^ 31" by simp
  from C6_closest_packable_idempotent [OF h0] h1 h2
  show ?thesis by blast
qed

text \<open>
  Claim C5 (packability example at the amount width): \<open>closestPackableTransactionAmount
  1000000003\<close> is \<open>1000000000\<close>, \<open>packAmountChecked 1000000000\<close> succeeds and
  \<open>packAmountChecked 1000000003\<close> fails as not packable. The docstring of
  \<open>closestPackableTransactionAmount\<close> gives the same example
  (\<open>1000000003 => 1000000000\<close>). The code does otherwise at this input: the amount
  mantissa has 35 bits and \<open>1000000003 \<le> 2^35 - 1\<close>, so the loop leaves exponent 0,
  the value returned is \<open>1000000003\<close> itself, and \<open>packAmountChecked 1000000003\<close>
  returns the five bytes \<open>07 73 59 40 60\<close> instead of failing.
\<close>

theorem C5_closest_packable_amount_at_1000000003:
  "closestPackableTransactionAmount 1000000003 = Some (Inr 1000000003)
   \<and> closestPackableTransactionAmount 1000000003 \<noteq> Some (Inr 1000000000)
   \<and> packAmountChecked 1000000003 = Some (Inr [0x07, 0x73, 0x59, 0x40, 0x60])
   \<and> packAmountChecked 1000000003 \<noteq> Some (Inl AmountNotPackable)"
  by (simp add: closest_amount_1000000003 pack_amount_checked_1000000003)

text \<open>
  The fee functions, which carry the same docstring, do what it says: with 11 mantissa
  bits \<open>1000000003\<close> is rounded to \<open>1000000000\<close>, which is packable, and
  \<open>1000000003\<close> is rejected.
\<close>

lemma fee_width_example:
  "closestPackableTransactionFee 1000000003 = Some (Inr 1000000000)
   \<and> packFeeChecked 1000000000 = Some (Inr [0x7d, 0x06])
   \<and> packFeeChecked 1000000003 = Some (Inl FeeNotPackable)
   \<and> packAmountChecked 1000000000 = Some (Inr [0x07, 0x73, 0x59, 0x40, 0x00])"
  by (simp add: closest_fee_1000000003 pack_fee_checked_1000000000 pack_fee_checked_1000000003
        pack_amount_checked_1000000000)

lemma above_255: "1 \<le> k \<Longrightarrow> (256::int) \<le> (2 ^ 8 - 1) * 10 ^ k"
proof -
  assume "1 \<le> k"
  then have "(10::int) ^ 1 \<le> 10 ^ k" by (intro power_increasing) simp_all
  then have "(255::int) * 10 ^ 1 \<le> 255 * 10 ^ k" by (intro mult_left_mono) simp_all
  then show ?thesis by simp
qed

text \<open>
  Claim C7 (encoding overflow), as the specification states it, for arbitrary widths:
  \<open>integerToFloat value expBits mantissaBits 10\<close> fails with the overflow error exactly
  when \<open>value > (2^mantissaBits - 1) * 10^(2^expBits - 1)\<close>, and returns
  \<open>(expBits + mantissaBits) / 8\<close> bytes otherwise. Two inputs show where this fails.
  With 5 + 4 bits the value 0 is within the bound, but \<open>bitsIntoBytesInBEOrder\<close> rejects
  a bit count that is not a multiple of 8. With 32 exponent bits the shift \<open>1 << 32\<close>
  is 1, so the computed bound is \<open>(2^8 - 1) * 10^0\<close> and 256 is rejected although it is
  below the stated bound.
\<close>

theorem C7_encoding_overflow_counterexample:
  "integerToFloat 0 5 4 10 = Some (Inl WrongNumberOfBits)
   \<and> (0::int) \<le> (2 ^ 4 - 1) * 10 ^ (2 ^ 5 - 1)
   \<and> integerToFloat 256 32 8 10 = Some (Inl IntegerTooBig)
   \<and> (256::int) \<le> (2 ^ 8 - 1) * 10 ^ (2 ^ 32 - 1)"
proof (intro conjI)
  show "integerToFloat 0 5 4 10 = Some (Inl WrongNumberOfBits)" by code_simp
  show "(0::int) \<le> (2 ^ 4 - 1) * 10 ^ (2 ^ 5 - 1)" by simp
  show "integerToFloat 256 32 8 10 = Some (Inl IntegerTooBig)" by code_simp
  show "(256::int) \<le> (2 ^ 8 - 1) * 10 ^ (2 ^ 32 - 1)" by (rule above_255) simp
qed

text \<open>
  Claim C7, amended. For at most 30 exponent bits (where \<open>1 << expBits\<close> is
  \<open>2^expBits\<close>), \<open>integerToFloat value expBits mantissaBits 10\<close> fails with the overflow
  error if and only if \<open>value > (2^mantissaBits - 1) * 10^(2^expBits - 1)\<close>; and when
  \<open>expBits + mantissaBits\<close> is a multiple of 8, every value at or below that bound
  returns a buffer of exactly \<open>(expBits + mantissaBits) / 8\<close> bytes.
\<close>

theorem C7_encoding_overflow_amended:
  assumes "expBits \<le> 30"
  shows "(integerToFloat v expBits mantissaBits 10 = Some (Inl IntegerTooBig)
            \<longleftrightarrow> (2 ^ mantissaBits - 1) * 10 ^ (2 ^ expBits - 1) < v)
       \<and> ((expBits + mantissaBits) mod 8 = 0 \<and> v \<le> (2 ^ mantissaBits - 1) * 10 ^ (2 ^ expBits - 1) \<longrightarrow>
            (\<exists>buf. integerToFloat v expBits mantissaBits 10 = Some (Inr buf)
               \<and> length buf = (expBits + mantissaBits) div 8))"
proof (intro conjI impI)
  show "integerToFloat v expBits mantissaBits 10 = Some (Inl IntegerTooBig)
          \<longleftrightarrow> (2 ^ mantissaBits - 1) * 10 ^ (2 ^ expBits - 1) < v"
    by (rule overflow_check_iff [OF assms])
next
  assume "(expBits + mantissaBits) mod 8 = 0 \<and> v \<le> (2 ^ mantissaBits - 1) * 10 ^ (2 ^ expBits - 1)"
  then have al: "(expBits + mantissaBits) mod 8 = 0"
    and bd: "v \<le> (2 ^ mantissaBits - 1) * 10 ^ (2 ^ expBits - 1)"
    by simp_all
  from integerToFloat_total [OF assms al bd] obtain buf where
    b: "integerToFloat v expBits mantissaBits 10 = Some (Inr buf)" by blast
  from integerToFloat_length [OF b] have "length buf = (expBits + mantissaBits) div 8" by simp
  with b show "\<exists>buf. integerToFloat v expBits mantissaBits 10 = Some (Inr buf)
                  \<and> length buf = (expBits + mantissaBits) div 8"
    by blast
qed

theorem C7_encoding_overflow_amended_witness:
  "integerToFloat (2047 * 10 ^ 31 + 1) 5 11 10 = Some (Inl IntegerTooBig)
   \<and> (\<exists>buf. integerToFloat (2047 * 10 ^ 31) 5 11 10 = Some (Inr buf) \<and> length buf = 2)"
proof -
  have h: "(5::nat) \<le> 30" by simp
  have a: "((2::int) ^ 11 - 1) * 10 ^ (2 ^ 5 - 1) < 2047 * 10 ^ 31 + 1" by simp
  have b: "((5::nat) + 11) mod 8 = 0 \<and> (2047 * 10 ^ 31 :: int) \<le> (2 ^ 11 - 1) * 10 ^ (2 ^ 5 - 1)"
    by simp
  from C7_encoding_overflow_amended [OF h, of "2047 * 10 ^ 31 + 1" 11] a
  have "integerToFloat (2047 * 10 ^ 31 + 1) 5 11 10 = Some (Inl IntegerTooBig)" by blast
  moreover from C7_encoding_overflow_amended [OF h, of "2047 * 10 ^ 31" 11] b
  have "\<exists>buf. integerToFloat (2047 * 10 ^ 31) 5 11 10 = Some (Inr buf) \<and> length buf = (5 + 11) div 8"
    by blast
  ultimately show ?thesis by simp
qed

section \<open>Claims about \<open>reverseBits\<close>\<close>

text \<open>
  Claim C3 (only the byte order is reversed). For every buffer \<open>b\<close> and every index
  \<open>i < length b\<close>, byte \<open>i\<close> of the buffer returned by \<open>reverseBits b\<close> is byte
  \<open>length b - 1 - i\<close> of \<open>b\<close> as it was passed in; the bytes themselves are unchanged,
  since the result of the within-byte transform is dropped.
\<close>

theorem C3_reverseBits_byte_order:
  "snd (reverseBits b) = rev b
   \<and> length (snd (reverseBits b)) = length b
   \<and> (\<forall>i<length b. snd (reverseBits b) ! i = b ! (length b - 1 - i))"
  by (simp add: reverseBits_eq rev_nth)

theorem C3_reverseBits_byte_order_witness:
  "snd (reverseBits [1, 2, 3]) ! 0 = [1, 2, 3 :: byte] ! 2
   \<and> snd (reverseBits [1, 2, 3]) = [3, 2, 1]
   \<and> reverse_bits_in_byte 1 = 0x80"
proof -
  have "(0::nat) < length [1, 2, 3 :: byte]" by simp
  with C3_reverseBits_byte_order [of "[1, 2, 3]"]
  have "snd (reverseBits [1, 2, 3]) ! 0 = [1, 2, 3 :: byte] ! (length [1, 2, 3 :: byte] - 1 - 0)"
    and "snd (reverseBits [1, 2, 3]) = rev [1, 2, 3]"
    by blast+
  moreover have "reverse_bits_in_byte 1 = 0x80"
    by (simp add: reverse_bits_in_byte_def)
  ultimately show ?thesis by simp
qed

text \<open>
  Claim C8 (no argument is mutated) says that the bytes of a buffer \<open>b\<close> are the same
  after \<open>reverseBits b\<close> as before. \<open>reverseBits\<close> copies its argument with
  \<open>Buffer.from\<close>, but only after \<open>buffer.reverse()\<close> has reversed it in place: on the
  two-byte buffer \<open>01 02\<close> the argument holds \<open>02 01\<close> after the call.
\<close>

theorem C8_reverseBits_reverses_argument_in_place:
  "fst (reverseBits [1, 2]) = [2, 1] \<and> fst (reverseBits [1, 2]) \<noteq> [1, 2]"
  by (simp add: reverseBits_eq)

section \<open>Field serialisers\<close>

lemma hex_digit_val_Some: "is_hex_digit c \<Longrightarrow> \<exists>n. hex_digit_val c = Some n"
  by (auto simp: is_hex_digit_def hex_digit_val_def)

lemma hex_digit_val_lower:
  "is_hex_digit c \<Longrightarrow>
     hex_digit_val (let n = (of_char c :: nat) in if 65 \<le> n \<and> n \<le> 90 then char_of (n + 32) else c)
       = hex_digit_val c"
  by (auto simp: is_hex_digit_def hex_digit_val_def char_of_def bit_Suc_0_iff)

lemma is_hex_lower:
  "is_hex_digit c \<Longrightarrow>
     is_hex_digit (let n = (of_char c :: nat) in if 65 \<le> n \<and> n \<le> 90 then char_of (n + 32) else c)"
  by (auto simp: is_hex_digit_def char_of_def bit_Suc_0_iff)

lemma Buffer_from_hex_length:
  "\<forall>c\<in>set h. is_hex_digit c \<Longrightarrow> length (Buffer_from_hex h) = length h div 2"
proof (induction h rule: Buffer_from_hex.induct)
  case (1 a b rest)
  then obtain x y where "hex_digit_val a = Some x" "hex_digit_val b = Some y"
    using hex_digit_val_Some [of a] hex_digit_val_Some [of b] by auto
  with 1 show ?case by simp
qed simp_all

lemma Buffer_from_hex_lower:
  "\<forall>c\<in>set h. is_hex_digit c \<Longrightarrow> Buffer_from_hex (toLowerCase h) = Buffer_from_hex h"
proof (induction h rule: Buffer_from_hex.induct)
  case (1 a b rest)
  then obtain x y where xy: "hex_digit_val a = Some x" "hex_digit_val b = Some y"
    using hex_digit_val_Some [of a] hex_digit_val_Some [of b] by auto
  from 1 have ha: "is_hex_digit a" and hb: "is_hex_digit b" by simp_all
  have IH: "Buffer_from_hex (toLowerCase rest) = Buffer_from_hex rest"
    using 1 xy by simp
  show ?case
    using hex_digit_val_lower [OF ha] hex_digit_val_lower [OF hb] xy IH
    by (simp add: toLowerCase_def)
qed (simp_all add: toLowerCase_def)

lemma startsWith_0x: "startsWith (''0x'' @ h) ''0x''"
  by (simp add: startsWith_def)

lemma startsWith_sync: "startsWith (''sync:'' @ h) ''sync:'' \<and> \<not> startsWith (''sync:'' @ h) ''0x''"
  by (simp add: startsWith_def)

lemma serializeAddress_hex:
  assumes "length h = 40" "\<forall>c\<in>set h. is_hex_digit c"
  shows "serializeAddress (''0x'' @ h) = Inr (Buffer_from_hex h)"
    and "serializeAddress (''sync:'' @ h) = Inr (Buffer_from_hex h)"
    and "length (Buffer_from_hex h) = 20"
  using Buffer_from_hex_length [OF assms(2)] assms(1) startsWith_0x [of h] startsWith_sync [of h]
  by (simp_all add: serializeAddress_def Let_def)

lemma serializeAddress_length: "serializeAddress a = Inr b \<Longrightarrow> length b = 20"
  by (auto simp: serializeAddress_def Let_def split: option.splits if_splits)

lemma writeUInt16BE_value:
  assumes "0 \<le> v" "v < 65536"
  shows "BN_of_bytes_be (writeUInt16BE v) = v"
proof -
  have "v div 256 < 256" using assms by simp
  moreover have "0 \<le> v div 256" using assms by simp
  ultimately have "v div 256 mod 256 = v div 256" by simp
  then show ?thesis
    by (simp add: BN_of_bytes_be_def writeUInt16BE_def uint_word_of_int take_bit_eq_mod drop_bit_eq_div)
qed

lemma toArrayLike_be_value:
  assumes "toArrayLike_be x len = Inr b"
  shows "length b = len \<and> BN_of_bytes_be b = \<bar>x\<bar>"
proof -
  from assms have lt: "\<bar>x\<bar> < 2 ^ (8 * len)"
    and b: "b = map (\<lambda>i. word_of_int (drop_bit (8 * (len - 1 - i)) \<bar>x\<bar>)) [0..<len]"
    by (auto simp: toArrayLike_be_def split: if_splits)
  have "BN_of_bytes_be b = take_bit (8 * len) \<bar>x\<bar>"
    unfolding b using be_bytes_value [of len len "\<bar>x\<bar>"] by simp
  also have "\<dots> = \<bar>x\<bar>" using lt by (simp add: take_bit_int_eq_self)
  finally show ?thesis using b by simp
qed

lemma writeUInt32BE_value:
  assumes "writeUInt32BE v = Inr b"
  shows "length b = 4 \<and> BN_of_bytes_be b = v"
proof -
  from assms have v: "0 \<le> v" "v < 2 ^ (8 * 4)"
    and b: "b = map (\<lambda>i. word_of_int (drop_bit (8 * (4 - 1 - i)) v)) [0..<4]"
    by (auto simp: writeUInt32BE_def upt_rec split: if_splits)
  have "BN_of_bytes_be b = take_bit (8 * 4) v"
    unfolding b using be_bytes_value [of 4 4 v] by simp
  also have "\<dots> = v" using v by (simp add: take_bit_int_eq_self)
  finally show ?thesis using b by simp
qed

lemma serializeTokenId_value:
  "serializeTokenId t = Inr b \<Longrightarrow> length b = 2 \<and> BN_of_bytes_be b = t"
proof -
  assume "serializeTokenId t = Inr b"
  then have t: "0 \<le> t" "t < 65536" and b: "b = writeUInt16BE t"
    by (auto simp: serializeTokenId_def MAX_NUMBER_OF_TOKENS_def split: if_splits)
  from writeUInt16BE_value [OF t] show ?thesis
    unfolding b by (simp add: writeUInt16BE_def)
qed

lemma serializeNonce_value:
  "serializeNonce n = Inr b \<Longrightarrow> length b = 4 \<and> BN_of_bytes_be b = n"
  using writeUInt32BE_value [of n b]
  by (auto simp: serializeNonce_def split: if_splits)

text \<open>
  Claim C9 (address parsing). For every string \<open>h\<close> of 40 hexadecimal digits,
  \<open>serializeAddress\<close> succeeds on \<open>0x\<close> followed by \<open>h\<close> and on \<open>sync:\<close> followed by
  \<open>h\<close>, with the same 20 bytes. It fails on every string that starts with neither
  \<open>0x\<close> nor \<open>sync:\<close>, and it fails whenever the bytes decoded from the rest of the
  string after the prefix are not exactly 20.
\<close>

theorem C9_serializeAddress_parsing:
  "(length h = 40 \<and> (\<forall>c\<in>set h. is_hex_digit c) \<longrightarrow>
      (\<exists>bytes. serializeAddress (''0x'' @ h) = Inr bytes
          \<and> serializeAddress (''sync:'' @ h) = Inr bytes \<and> length bytes = 20))
   \<and> (\<not> startsWith a ''0x'' \<and> \<not> startsWith a ''sync:'' \<longrightarrow>
         serializeAddress a = Inl BadAddressPrefix)
   \<and> (startsWith a ''0x'' \<and> length (Buffer_from_hex (drop 2 a)) \<noteq> 20 \<longrightarrow>
         serializeAddress a = Inl BadAddressLength)
   \<and> (\<not> startsWith a ''0x'' \<and> startsWith a ''sync:'' \<and> length (Buffer_from_hex (drop 5 a)) \<noteq> 20 \<longrightarrow>
         serializeAddress a = Inl BadAddressLength)"
proof (intro conjI impI)
  assume "length h = 40 \<and> (\<forall>c\<in>set h. is_hex_digit c)"
  then show "\<exists>bytes. serializeAddress (''0x'' @ h) = Inr bytes
          \<and> serializeAddress (''sync:'' @ h) = Inr bytes \<and> length bytes = 20"
    using serializeAddress_hex [of h] by blast
qed (simp_all add: serializeAddress_def Let_def)

lemma hex_example: "\<forall>c\<in>set ''00112233445566778899aAbBcCdDeEfF00112233''. is_hex_digit c"
  by (simp add: is_hex_digit_def)

theorem C9_serializeAddress_parsing_witness:
  "(\<exists>bytes. serializeAddress (''0x'' @ ''00112233445566778899aAbBcCdDeEfF00112233'') = Inr bytes
       \<and> serializeAddress (''sync:'' @ ''00112233445566778899aAbBcCdDeEfF00112233'') = Inr bytes
       \<and> length bytes = 20)
   \<and> serializeAddress ''00112233445566778899aabbccddeeff00112233'' = Inl BadAddressPrefix
   \<and> serializeAddress ''0x0011'' = Inl BadAddressLength
   \<and> serializeAddress ''sync:00112233445566778899aabbccddeeff00112233ff'' = Inl BadAddressLength"
proof -
  have l: "length ''00112233445566778899aAbBcCdDeEfF00112233'' = 40" by simp
  have p: "\<not> startsWith ''00112233445566778899aabbccddeeff00112233'' ''0x''
           \<and> \<not> startsWith ''00112233445566778899aabbccddeeff00112233'' ''sync:''"
    by (simp add: startsWith_def)
  have s: "startsWith ''0x0011'' ''0x'' \<and> length (Buffer_from_hex (drop 2 ''0x0011'')) \<noteq> 20"
    by (simp add: startsWith_def hex_digit_val_def)
  have y: "\<not> startsWith ''sync:00112233445566778899aabbccddeeff00112233ff'' ''0x''
           \<and> startsWith ''sync:00112233445566778899aabbccddeeff00112233ff'' ''sync:''
           \<and> length (Buffer_from_hex (drop 5 ''sync:00112233445566778899aabbccddeeff00112233ff'')) \<noteq> 20"
    by (simp add: startsWith_def hex_digit_val_def)
  from C9_serializeAddress_parsing
         [of "''00112233445566778899aAbBcCdDeEfF00112233''"
             "''00112233445566778899aabbccddeeff00112233''"] l hex_example p
  have "(\<exists>bytes. serializeAddress (''0x'' @ ''00112233445566778899aAbBcCdDeEfF00112233'') = Inr bytes
       \<and> serializeAddress (''sync:'' @ ''00112233445566778899aAbBcCdDeEfF00112233'') = Inr bytes
       \<and> length bytes = 20)
     \<and> serializeAddress ''00112233445566778899aabbccddeeff00112233'' = Inl BadAddressPrefix"
    by blast
  moreover from C9_serializeAddress_parsing [of "[]" "''0x0011''"] s
  have "serializeAddress ''0x0011'' = Inl BadAddressLength" by blast
  moreover from C9_serializeAddress_parsing
                  [of "[]" "''sync:00112233445566778899aabbccddeeff00112233ff''"] y
  have "serializeAddress ''sync:00112233445566778899aabbccddeeff00112233ff'' = Inl BadAddressLength"
    by blast
  ultimately show ?thesis by blast
qed

text \<open>
  Claim C10 (hexadecimal digits of either case). \<open>serializeAddress\<close> does not require
  lower-case digits: for every string \<open>h\<close> of 40 hexadecimal digits in upper, lower or
  mixed case, prefixed with \<open>0x\<close> or \<open>sync:\<close>, it succeeds and returns the same 20
  bytes as for the lower-case form of \<open>h\<close>.
\<close>

theorem C10_serializeAddress_case_insensitive:
  assumes "length h = 40" "\<forall>c\<in>set h. is_hex_digit c"
  shows "\<exists>bytes. length bytes = 20
           \<and> serializeAddress (''0x'' @ h) = Inr bytes
           \<and> serializeAddress (''0x'' @ toLowerCase h) = Inr bytes
           \<and> serializeAddress (''sync:'' @ h) = Inr bytes
           \<and> serializeAddress (''sync:'' @ toLowerCase h) = Inr bytes"
proof -
  have l: "length (toLowerCase h) = 40" using assms(1) by (simp add: toLowerCase_def)
  have hx: "\<forall>c\<in>set (toLowerCase h). is_hex_digit c"
    using assms(2) is_hex_lower by (auto simp: toLowerCase_def)
  show ?thesis
    using serializeAddress_hex [OF assms] serializeAddress_hex [OF l hx]
      Buffer_from_hex_lower [OF assms(2)]
    by simp
qed

lemma lower_example:
  "toLowerCase ''00112233445566778899aAbBcCdDeEfF00112233'' = ''00112233445566778899aabbccddeeff00112233''"
  by (simp add: toLowerCase_def char_of_def bit_Suc_0_iff)

theorem C10_serializeAddress_case_insensitive_witness:
  "\<exists>bytes. length bytes = 20
      \<and> serializeAddress ''0x00112233445566778899aAbBcCdDeEfF00112233'' = Inr bytes
      \<and> serializeAddress ''0x00112233445566778899aabbccddeeff00112233'' = Inr bytes
      \<and> serializeAddress ''sync:00112233445566778899aAbBcCdDeEfF00112233'' = Inr bytes
      \<and> serializeAddress ''sync:00112233445566778899aabbccddeeff00112233'' = Inr bytes"
proof -
  have l: "length ''00112233445566778899aAbBcCdDeEfF00112233'' = 40" by simp
  from C10_serializeAddress_case_insensitive [OF l hex_example]
  show ?thesis by (simp add: lower_example)
qed

section \<open>Claims about the signed messages\<close>

lemma transfer_message:
  assumes "serializeAddress (t_from t) = Inr fromBytes"
    and "serializeAddress (t_to t) = Inr toBytes"
    and "serializeTokenId (t_tokenId t) = Inr tokenBytes"
    and "serializeAmountPacked (t_amount t) = Some (Inr amountBytes)"
    and "serializeFeePacked (t_fee t) = Some (Inr feeBytes)"
    and "serializeNonce (t_nonce t) = Inr nonceBytes"
  shows "(\<exists>tx. signSyncTransfer sign key t = Some (Inr tx)
            \<and> tx_signature tx =
                sign key ([5] @ fromBytes @ toBytes @ tokenBytes @ amountBytes @ feeBytes @ nonceBytes))
       \<and> length ([5 :: byte] @ fromBytes @ toBytes @ tokenBytes @ amountBytes @ feeBytes @ nonceBytes) = 54
       \<and> length fromBytes = 20 \<and> length toBytes = 20
       \<and> length tokenBytes = 2 \<and> BN_of_bytes_be tokenBytes = t_tokenId t
       \<and> length amountBytes = 5 \<and> floatToInteger amountBytes 5 35 10 = Inr (t_amount t)
       \<and> length feeBytes = 2 \<and> floatToInteger feeBytes 5 11 10 = Inr (t_fee t)
       \<and> length nonceBytes = 4 \<and> BN_of_bytes_be nonceBytes = t_nonce t"
proof -
  have "\<exists>tx. signSyncTransfer sign key t = Some (Inr tx)
            \<and> tx_signature tx =
                sign key ([5] @ fromBytes @ toBytes @ tokenBytes @ amountBytes @ feeBytes @ nonceBytes)"
    using assms by (simp add: signSyncTransfer_def then_do_def Let_def)
  moreover note serializeAddress_length [OF assms(1)] serializeAddress_length [OF assms(2)]
    serializeTokenId_value [OF assms(3)] serializeNonce_value [OF assms(6)]
    packAmountChecked_length [OF assms(4) [unfolded serializeAmountPacked_def]]
    packAmountChecked_decodes [OF assms(4) [unfolded serializeAmountPacked_def]]
    packFeeChecked_length [OF assms(5) [unfolded serializeFeePacked_def]]
    packFeeChecked_decodes [OF assms(5) [unfolded serializeFeePacked_def]]
  ultimately show ?thesis by simp
qed

lemma withdraw_message:
  assumes "serializeAddress (w_from w) = Inr accountBytes"
    and "serializeAddress (w_ethAddress w) = Inr ethAddressBytes"
    and "serializeTokenId (w_tokenId w) = Inr tokenIdBytes"
    and "serializeAmountFull (w_amount w) = Inr amountBytes"
    and "serializeFeePacked (w_fee w) = Some (Inr feeBytes)"
    and "serializeNonce (w_nonce w) = Inr nonceBytes"
  shows "(\<exists>tx. signSyncWithdraw sign key w = Some (Inr tx)
            \<and> tx_signature tx =
                sign key ([3] @ accountBytes @ ethAddressBytes @ tokenIdBytes @ amountBytes
                          @ feeBytes @ nonceBytes))
       \<and> length ([3 :: byte] @ accountBytes @ ethAddressBytes @ tokenIdBytes @ amountBytes
                  @ feeBytes @ nonceBytes) = 65
       \<and> length accountBytes = 20 \<and> length ethAddressBytes = 20
       \<and> length tokenIdBytes = 2 \<and> BN_of_bytes_be tokenIdBytes = w_tokenId w
       \<and> length amountBytes = 16 \<and> BN_of_bytes_be amountBytes = \<bar>w_amount w\<bar>
       \<and> length feeBytes = 2 \<and> floatToInteger feeBytes 5 11 10 = Inr (w_fee w)
       \<and> length nonceBytes = 4 \<and> BN_of_bytes_be nonceBytes = w_nonce w"
proof -
  have "\<exists>tx. signSyncWithdraw sign key w = Some (Inr tx)
            \<and> tx_signature tx =
                sign key ([3] @ accountBytes @ ethAddressBytes @ tokenIdBytes @ amountBytes
                          @ feeBytes @ nonceBytes)"
    using assms by (simp add: signSyncWithdraw_def then_do_def Let_def)
  moreover note serializeAddress_length [OF assms(1)] serializeAddress_length [OF assms(2)]
    serializeTokenId_value [OF assms(3)] serializeNonce_value [OF assms(6)]
    toArrayLike_be_value [OF assms(4) [unfolded serializeAmountFull_def]]
    packFeeChecked_length [OF assms(5) [unfolded serializeFeePacked_def]]
    packFeeChecked_decodes [OF assms(5) [unfolded serializeFeePacked_def]]
  ultimately show ?thesis by simp
qed

text \<open>
  Claim C4 (canonical message layout). Whenever all field serialisations succeed, the
  message that \<open>signSyncTransfer\<close> hands to the signing primitive is the 54-byte
  concatenation of the tag byte 5, the 20-byte from-address, the 20-byte to-address, the
  2-byte big-endian token id, the 5-byte packed amount, the 2-byte packed fee and the
  4-byte big-endian nonce, in that order; and the message that \<open>signSyncWithdraw\<close> signs
  is the 65-byte concatenation of the tag byte 3, the 20-byte account address, the
  20-byte destination address, the 2-byte token id, the 16-byte big-endian full amount,
  the 2-byte packed fee and the 4-byte nonce. The signing primitive is arbitrary. The
  16 bytes of the full amount hold its magnitude, which is the amount itself for the
  non-negative amounts of the data model.
\<close>

theorem C4_canonical_message_layout:
  "(serializeAddress (t_from t) = Inr fromBytes
      \<and> serializeAddress (t_to t) = Inr toBytes
      \<and> serializeTokenId (t_tokenId t) = Inr tokenBytes
      \<and> serializeAmountPacked (t_amount t) = Some (Inr amountBytes)
      \<and> serializeFeePacked (t_fee t) = Some (Inr feeBytes)
      \<and> serializeNonce (t_nonce t) = Inr nonceBytes
    \<longrightarrow>
      (\<exists>tx. signSyncTransfer sign key t = Some (Inr tx)
          \<and> tx_signature tx =
              sign key ([5] @ fromBytes @ toBytes @ tokenBytes @ amountBytes @ feeBytes @ nonceBytes))
      \<and> length ([5 :: byte] @ fromBytes @ toBytes @ tokenBytes @ amountBytes @ feeBytes @ nonceBytes) = 54
      \<and> length fromBytes = 20 \<and> length toBytes = 20
      \<and> length tokenBytes = 2 \<and> BN_of_bytes_be tokenBytes = t_tokenId t
      \<and> length amountBytes = 5 \<and> floatToInteger amountBytes 5 35 10 = Inr (t_amount t)
      \<and> length feeBytes = 2 \<and> floatToInteger feeBytes 5 11 10 = Inr (t_fee t)
      \<and> length nonceBytes = 4 \<and> BN_of_bytes_be nonceBytes = t_nonce t)
   \<and> (serializeAddress (w_from w) = Inr accountBytes
      \<and> serializeAddress (w_ethAddress w) = Inr ethAddressBytes
      \<and> serializeTokenId (w_tokenId w) = Inr tokenIdBytes
      \<and> serializeAmountFull (w_amount w) = Inr fullAmountBytes
      \<and> serializeFeePacked (w_fee w) = Some (Inr wFeeBytes)
      \<and> serializeNonce (w_nonce w) = Inr wNonceBytes
    \<longrightarrow>
      (\<exists>tx. signSyncWithdraw sign key w = Some (Inr tx)
          \<and> tx_signature tx =
              sign key ([3] @ accountBytes @ ethAddressBytes @ tokenIdBytes @ fullAmountBytes
                        @ wFeeBytes @ wNonceBytes))
      \<and> length ([3 :: byte] @ accountBytes @ ethAddressBytes @ tokenIdBytes @ fullAmountBytes
                 @ wFeeBytes @ wNonceBytes) = 65
      \<and> length accountBytes = 20 \<and> length ethAddressBytes = 20
      \<and> length tokenIdBytes = 2 \<and> BN_of_bytes_be tokenIdBytes = w_tokenId w
      \<and> length fullAmountBytes = 16 \<and> BN_of_bytes_be fullAmountBytes = \<bar>w_amount w\<bar>
      \<and> length wFeeBytes = 2 \<and> floatToInteger wFeeBytes 5 11 10 = Inr (w_fee w)
      \<and> length wNonceBytes = 4 \<and> BN_of_bytes_be wNonceBytes = w_nonce w)"
proof (rule conjI; rule impI)
  assume "serializeAddress (t_from t) = Inr fromBytes
      \<and> serializeAddress (t_to t) = Inr toBytes
      \<and> serializeTokenId (t_tokenId t) = Inr tokenBytes
      \<and> serializeAmountPacked (t_amount t) = Some (Inr amountBytes)
      \<and> serializeFeePacked (t_fee t) = Some (Inr feeBytes)
      \<and> serializeNonce (t_nonce t) = Inr nonceBytes"
  then have h: "serializeAddress (t_from t) = Inr fromBytes"
      "serializeAddress (t_to t) = Inr toBytes"
      "serializeTokenId (t_tokenId t) = Inr tokenBytes"
      "serializeAmountPacked (t_amount t) = Some (Inr amountBytes)"
      "serializeFeePacked (t_fee t) = Some (Inr feeBytes)"
      "serializeNonce (t_nonce t) = Inr nonceBytes"
    by simp_all
  from transfer_message [OF h, of sign key]
  show "(\<exists>tx. signSyncTransfer sign key t = Some (Inr tx)
          \<and> tx_signature tx =
              sign key ([5] @ fromBytes @ toBytes @ tokenBytes @ amountBytes @ feeBytes @ nonceBytes))
      \<and> length ([5 :: byte] @ fromBytes @ toBytes @ tokenBytes @ amountBytes @ feeBytes @ nonceBytes) = 54
      \<and> length fromBytes = 20 \<and> length toBytes = 20
      \<and> length tokenBytes = 2 \<and> BN_of_bytes_be tokenBytes = t_tokenId t
      \<and> length amountBytes = 5 \<and> floatToInteger amountBytes 5 35 10 = Inr (t_amount t)
      \<and> length feeBytes = 2 \<and> floatToInteger feeBytes 5 11 10 = Inr (t_fee t)
      \<and> length nonceBytes = 4 \<and> BN_of_bytes_be nonceBytes = t_nonce t" .
next
  assume "serializeAddress (w_from w) = Inr accountBytes
      \<and> serializeAddress (w_ethAddress w) = Inr ethAddressBytes
      \<and> serializeTokenId (w_tokenId w) = Inr tokenIdBytes
      \<and> serializeAmountFull (w_amount w) = Inr fullAmountBytes
      \<and> serializeFeePacked (w_fee w) = Some (Inr wFeeBytes)
      \<and> serializeNonce (w_nonce w) = Inr wNonceBytes"
  then have h: "serializeAddress (w_from w) = Inr accountBytes"
      "serializeAddress (w_ethAddress w) = Inr ethAddressBytes"
      "serializeTokenId (w_tokenId w) = Inr tokenIdBytes"
      "serializeAmountFull (w_amount w) = Inr fullAmountBytes"
      "serializeFeePacked (w_fee w) = Some (Inr wFeeBytes)"
      "serializeNonce (w_nonce w) = Inr wNonceBytes"
    by simp_all
  from withdraw_message [OF h, of sign key]
  show "(\<exists>tx. signSyncWithdraw sign key w = Some (Inr tx)
          \<and> tx_signature tx =
              sign key ([3] @ accountBytes @ ethAddressBytes @ tokenIdBytes @ fullAmountBytes
                        @ wFeeBytes @ wNonceBytes))
      \<and> length ([3 :: byte] @ accountBytes @ ethAddressBytes @ tokenIdBytes @ fullAmountBytes
                 @ wFeeBytes @ wNonceBytes) = 65
      \<and> length accountBytes = 20 \<and> length ethAddressBytes = 20
      \<and> length tokenIdBytes = 2 \<and> BN_of_bytes_be tokenIdBytes = w_tokenId w
      \<and> length fullAmountBytes = 16 \<and> BN_of_bytes_be fullAmountBytes = \<bar>w_amount w\<bar>
      \<and> length wFeeBytes = 2 \<and> floatToInteger wFeeBytes 5 11 10 = Inr (w_fee w)
      \<and> length wNonceBytes = 4 \<and> BN_of_bytes_be wNonceBytes = w_nonce w" .
qed

lemma example_address_1:
  "serializeAddress ''sync:00112233445566778899aabbccddeeff00112233''
     = Inr [0x00,0x11,0x22,0x33,0x44,0x55,0x66,0x77,0x88,0x99,
            0xaa,0xbb,0xcc,0xdd,0xee,0xff,0x00,0x11,0x22,0x33]"
  by code_simp

lemma example_address_2:
  "serializeAddress ''sync:ffeeddccbbaa99887766554433221100ffeeddcc''
     = Inr [0xff,0xee,0xdd,0xcc,0xbb,0xaa,0x99,0x88,0x77,0x66,
            0x55,0x44,0x33,0x22,0x11,0x00,0xff,0xee,0xdd,0xcc]"
  by code_simp

lemma example_address_3:
  "serializeAddress ''0xffeeddccbbaa99887766554433221100ffeeddcc''
     = Inr [0xff,0xee,0xdd,0xcc,0xbb,0xaa,0x99,0x88,0x77,0x66,
            0x55,0x44,0x33,0x22,0x11,0x00,0xff,0xee,0xdd,0xcc]"
  by code_simp

lemma example_token: "serializeTokenId 258 = Inr [1, 2]"
  by code_simp

lemma example_amount_packed:
  "serializeAmountPacked 1000000003 = Some (Inr [0x07, 0x73, 0x59, 0x40, 0x60])"
  by code_simp

lemma example_fee_packed: "serializeFeePacked 1000000000 = Some (Inr [0x7d, 0x06])"
  by code_simp

lemma example_nonce: "serializeNonce 66051 = Inr [0, 1, 2, 3]"
  by code_simp

lemma example_amount_full:
  "serializeAmountFull 1000000003 = Inr [0,0,0,0,0,0,0,0,0,0,0,0,0x3b,0x9a,0xca,0x03]"
  by code_simp

theorem C4_canonical_message_layout_witness:
  "(\<exists>tx. signSyncTransfer (\<lambda>key msg. msg) () example_transfer = Some (Inr tx)
      \<and> tx_signature tx =
          [5,
           0x00,0x11,0x22,0x33,0x44,0x55,0x66,0x77,0x88,0x99,
           0xaa,0xbb,0xcc,0xdd,0xee,0xff,0x00,0x11,0x22,0x33,
           0xff,0xee,0xdd,0xcc,0xbb,0xaa,0x99,0x88,0x77,0x66,
           0x55,0x44,0x33,0x22,0x11,0x00,0xff,0xee,0xdd,0xcc,
           1, 2,
           0x07, 0x73, 0x59, 0x40, 0x60,
           0x7d, 0x06,
           0, 1, 2, 3])
   \<and> (\<exists>tx. signSyncWithdraw (\<lambda>key msg. msg) () example_withdraw = Some (Inr tx)
      \<and> tx_signature tx =
          [3,
           0x00,0x11,0x22,0x33,0x44,0x55,0x66,0x77,0x88,0x99,
           0xaa,0xbb,0xcc,0xdd,0xee,0xff,0x00,0x11,0x22,0x33,
           0xff,0xee,0xdd,0xcc,0xbb,0xaa,0x99,0x88,0x77,0x66,
           0x55,0x44,0x33,0x22,0x11,0x00,0xff,0xee,0xdd,0xcc,
           1, 2,
           0,0,0,0,0,0,0,0,0,0,0,0,0x3b,0x9a,0xca,0x03,
           0x7d, 0x06,
           0, 1, 2, 3])"
proof -
  have ht: "serializeAddress (t_from example_transfer)
               = Inr [0x00,0x11,0x22,0x33,0x44,0x55,0x66,0x77,0x88,0x99,
                      0xaa,0xbb,0xcc,0xdd,0xee,0xff,0x00,0x11,0x22,0x33]
      \<and> serializeAddress (t_to example_transfer)
               = Inr [0xff,0xee,0xdd,0xcc,0xbb,0xaa,0x99,0x88,0x77,0x66,
                      0x55,0x44,0x33,0x22,0x11,0x00,0xff,0xee,0xdd,0xcc]
      \<and> serializeTokenId (t_tokenId example_transfer) = Inr [1, 2]
      \<and> serializeAmountPacked (t_amount example_transfer) = Some (Inr [0x07, 0x73, 0x59, 0x40, 0x60])
      \<and> serializeFeePacked (t_fee example_transfer) = Some (Inr [0x7d, 0x06])
      \<and> serializeNonce (t_nonce example_transfer) = Inr [0, 1, 2, 3]"
    by (simp add: example_transfer_def example_address_1 example_address_2 example_token
          example_amount_packed example_fee_packed example_nonce)
  have hw: "serializeAddress (w_from example_withdraw)
               = Inr [0x00,0x11,0x22,0x33,0x44,0x55,0x66,0x77,0x88,0x99,
                      0xaa,0xbb,0xcc,0xdd,0xee,0xff,0x00,0x11,0x22,0x33]
      \<and> serializeAddress (w_ethAddress example_withdraw)
               = Inr [0xff,0xee,0xdd,0xcc,0xbb,0xaa,0x99,0x88,0x77,0x66,
                      0x55,0x44,0x33,0x22,0x11,0x00,0xff,0xee,0xdd,0xcc]
      \<and> serializeTokenId (w_tokenId example_withdraw) = Inr [1, 2]
      \<and> serializeAmountFull (w_amount example_withdraw)
               = Inr [0,0,0,0,0,0,0,0,0,0,0,0,0x3b,0x9a,0xca,0x03]
      \<and> serializeFeePacked (w_fee example_withdraw) = Some (Inr [0x7d, 0x06])
      \<and> serializeNonce (w_nonce example_withdraw) = Inr [0, 1, 2, 3]"
    by (simp add: example_withdraw_def example_address_1 example_address_3 example_token
          example_amount_full example_fee_packed example_nonce)
  note C4_canonical_message_layout
    [where t = example_transfer and w = example_withdraw
       and sign = "\<lambda>key msg. msg" and key = "()"
       and fromBytes = "[0x00,0x11,0x22,0x33,0x44,0x55,0x66,0x77,0x88,0x99,
                         0xaa,0xbb,0xcc,0xdd,0xee,0xff,0x00,0x11,0x22,0x33]"
       and toBytes = "[0xff,0xee,0xdd,0xcc,0xbb,0xaa,0x99,0x88,0x77,0x66,
                       0x55,0x44,0x33,0x22,0x11,0x00,0xff,0xee,0xdd,0xcc]"
       and tokenBytes = "[1, 2]" and amountBytes = "[0x07, 0x73, 0x59, 0x40, 0x60]"
       and feeBytes = "[0x7d, 0x06]" and nonceBytes = "[0, 1, 2, 3]"
       and accountBytes = "[0x00,0x11,0x22,0x33,0x44,0x55,0x66,0x77,0x88,0x99,
                            0xaa,0xbb,0xcc,0xdd,0xee,0xff,0x00,0x11,0x22,0x33]"
       and ethAddressBytes = "[0xff,0xee,0xdd,0xcc,0xbb,0xaa,0x99,0x88,0x77,0x66,
                               0x55,0x44,0x33,0x22,0x11,0x00,0xff,0xee,0xdd,0xcc]"
       and tokenIdBytes = "[1, 2]"
       and fullAmountBytes = "[0,0,0,0,0,0,0,0,0,0,0,0,0x3b,0x9a,0xca,0x03]"
       and wFeeBytes = "[0x7d, 0x06]" and wNonceBytes = "[0, 1, 2, 3]"]
  with ht hw show ?thesis by simp
qed

end
